theory Spec2Isabelle
  imports Main "HOL-Library.Sublist"
begin

section \<open>Values, errors and string primitives\<close>

text \<open>
  The helper class \<open>CollectionPathHelper\<close> of \<open>path.Helper.js\<close> works on JavaScript
  values. A value is one of the JSON-like shapes below; a string is a sequence of code
  units, of which the program only ever inspects the delimiters \<open>.\<close>, \<open>[\<close>, \<open>]\<close>
  and \<open>,\<close>. String wrapper objects (\<open>instanceof String\<close>) are identified with their
  primitive strings. The only exception the modelled operations can raise is a
  \<open>TypeError\<close> (a property read on \<open>undefined\<close> or \<open>null\<close>, a call of a missing method).
\<close>

datatype jsval =
    JUndefined
  | JNull
  | JBool bool
  | JNum int
  | JStr string
  | JArr "jsval list"
  | JObj "(string \<times> jsval) list"

datatype error = TypeError

text \<open>
  \<open>index_of needle s\<close> is the position of the first occurrence of \<open>needle\<close> in \<open>s\<close>,
  the search that underlies \<open>String.prototype.indexOf\<close> and \<open>String.prototype.replace\<close>
  with a string pattern.
\<close>

fun index_of :: "'a list \<Rightarrow> 'a list \<Rightarrow> nat option" where
  "index_of needle [] = (if needle = [] then Some 0 else None)"
| "index_of needle (c # cs) =
     (if prefix needle (c # cs) then Some 0 else map_option Suc (index_of needle cs))"

text \<open>\<open>s.indexOf(needle, position)\<close>: the position is clamped to the length, the result
  is \<open>-1\<close> when there is no occurrence at or after it.\<close>

definition indexOf :: "string \<Rightarrow> string \<Rightarrow> nat \<Rightarrow> int" where
  "indexOf s needle position =
     (let k = min position (length s) in
      case index_of needle (drop k s) of
        None \<Rightarrow> - 1
      | Some i \<Rightarrow> int (k + i))"

text \<open>\<open>s.replace(pattern, replacement)\<close> with a string pattern: only the first
  occurrence is replaced. The program only passes the replacement \<open>""\<close>, so the special
  \<open>$\<close> patterns of a replacement string play no role.\<close>

definition replace :: "string \<Rightarrow> string \<Rightarrow> string \<Rightarrow> string" where
  "replace s pattern replacement =
     (case index_of pattern s of
        None \<Rightarrow> s
      | Some k \<Rightarrow> take k s @ replacement @ drop (k + length pattern) s)"

text \<open>\<open>s.split(d).join("")\<close>: every occurrence of \<open>d\<close>, found left to right without
  overlap, is removed; an empty \<open>d\<close> splits into code units and the join restores \<open>s\<close>.
  The counter holds how many code units of a matched occurrence are still to be skipped.\<close>

fun split_join :: "string \<Rightarrow> nat \<Rightarrow> string \<Rightarrow> string" where
  "split_join d skip [] = []"
| "split_join d skip (c # cs) =
     (if 0 < skip then split_join d (skip - 1) cs
      else if d \<noteq> [] \<and> prefix d (c # cs) then split_join d (length d - 1) cs
      else c # split_join d 0 cs)"

text \<open>\<open>s.split(sep)\<close> for a separator of one code unit; the result is never empty.\<close>

fun js_split :: "string \<Rightarrow> char \<Rightarrow> string list" where
  "js_split [] sep = [[]]"
| "js_split (c # cs) sep =
     (if c = sep then [] # js_split cs sep
      else (case js_split cs sep of [] \<Rightarrow> [[c]] | x # xs \<Rightarrow> (c # x) # xs))"

text \<open>\<open>slice\<close> counts a negative index from the end; \<open>substring\<close> clamps its indices
  to the string and swaps them when they are out of order.\<close>

definition relative_index :: "int \<Rightarrow> nat \<Rightarrow> nat" where
  "relative_index i len = (if i < 0 then nat (max (int len + i) 0) else min (nat i) len)"

definition slice :: "'a list \<Rightarrow> int \<Rightarrow> int \<Rightarrow> 'a list" where
  "slice s start fin =
     (let from = relative_index start (length s); to = relative_index fin (length s)
      in take (to - from) (drop from s))"

definition slice_from :: "'a list \<Rightarrow> int \<Rightarrow> 'a list" where
  "slice_from s start = drop (relative_index start (length s)) s"

definition substring :: "string \<Rightarrow> int \<Rightarrow> int \<Rightarrow> string" where
  "substring s start fin =
     (let len = int (length s);
          a = min (max start 0) len;
          b = min (max fin 0) len;
          from = nat (min a b);
          to = nat (max a b)
      in take (to - from) (drop from s))"

text \<open>\<open>xs.splice(start, deleteCount)\<close>, as the array it leaves behind: a negative
  start counts from the end, and the count is clamped to what is there.\<close>

definition splice :: "'a list \<Rightarrow> int \<Rightarrow> int \<Rightarrow> 'a list" where
  "splice xs start deleteCount =
     (let len = length xs;
          actualStart = relative_index start len;
          actualDeleteCount = min (nat (max deleteCount 0)) (len - actualStart)
      in take actualStart xs @ drop (actualStart + actualDeleteCount) xs)"

section \<open>getRemainingString\<close>

text \<open>The options after the merge with the defaults
  \<open>{discardedStrings: [''], global: false}\<close>.\<close>

record grs_options =
  discardedStrings :: "string list"
  global :: bool

definition getRemainingString :: "string \<Rightarrow> grs_options \<Rightarrow> string" where
  "getRemainingString property options =
     foldl (\<lambda>p d. if global options then split_join d 0 p else replace p d [])
       property (discardedStrings options)"

section \<open>getStartType\<close>

definition getStartType :: "jsval \<Rightarrow> string" where
  "getStartType path =
     (case path of
        JStr s \<Rightarrow>
          (if length s > 0 then
             (let endBracket = indexOf s '']'' 1 in
              if s ! 0 = CHR ''['' \<and> endBracket > - 1 then
                (if indexOf (substring s 0 endBracket) '','' 2 = - 1 then ''array''
                 else ''object'')
              else ''object'')
           else ''unknown'')
      | _ \<Rightarrow> ''unknown'')"

section \<open>explodePath\<close>

text \<open>Facts about the string search that the loop of \<open>explodePath\<close> rests on.\<close>

lemma index_of_prefix: "prefix p s \<Longrightarrow> index_of p s = Some 0"
  by (cases s) auto

lemma index_of_bound: "index_of p s = Some k \<Longrightarrow> k + length p \<le> length s"
proof (induction s arbitrary: k)
  case Nil
  then show ?case by (simp split: if_splits)
next
  case (Cons c cs)
  show ?case
  proof (cases "prefix p (c # cs)")
    case True
    with Cons.prems prefix_length_le [of p "c # cs"] show ?thesis by simp
  next
    case False
    with Cons.prems obtain j where "index_of p cs = Some j" "k = Suc j" by auto
    with Cons.IH show ?thesis by fastforce
  qed
qed

lemma indexOf_range:
  assumes "indexOf s needle position \<noteq> - 1"
  shows "int (min position (length s)) \<le> indexOf s needle position"
    and "indexOf s needle position + int (length needle) \<le> int (length s)"
proof -
  let ?k = "min position (length s)"
  from assms obtain i where i: "index_of needle (drop ?k s) = Some i"
    by (auto simp: indexOf_def Let_def split: option.splits)
  then have v: "indexOf s needle position = int (?k + i)"
    by (simp add: indexOf_def Let_def)
  from v show "int ?k \<le> indexOf s needle position" by simp
  from index_of_bound [OF i] have "i + length needle \<le> length s - ?k" by simp
  with v show "indexOf s needle position + int (length needle) \<le> int (length s)"
    by simp
qed

lemma remaining_after_prefix:
  "k \<le> length s \<Longrightarrow>
   getRemainingString s \<lparr>discardedStrings = [take k s], global = False\<rparr> = drop k s"
  by (simp add: getRemainingString_def replace_def index_of_prefix take_is_prefix min_def)

lemma slice_to: "0 \<le> k \<Longrightarrow> slice s 0 k = take (nat k) s"
  by (simp add: slice_def relative_index_def Let_def min_def)

lemma loop_decreases:
  assumes "indexOf partial ''['' 1 \<noteq> - 1"
  shows "length (getRemainingString partial
           \<lparr>discardedStrings = [slice partial 0 (indexOf partial ''['' 1)], global = False\<rparr>)
         < length partial"
proof -
  let ?k = "indexOf partial ''['' 1"
  from indexOf_range [OF assms] have lo: "int (min 1 (length partial)) \<le> ?k"
    and hi: "?k + 1 \<le> int (length partial)" by simp_all
  from hi lo have pos: "1 \<le> ?k" by (cases partial) auto
  then have "slice partial 0 ?k = take (nat ?k) partial" by (simp add: slice_to)
  moreover from hi pos have "nat ?k \<le> length partial" by linarith
  ultimately have "getRemainingString partial
      \<lparr>discardedStrings = [slice partial 0 ?k], global = False\<rparr> = drop (nat ?k) partial"
    by (simp add: remaining_after_prefix)
  with pos hi show ?thesis by simp
qed

text \<open>
  The \<open>while\<close> loop of the first \<open>reduce\<close> callback, on its two variables: the result
  array and the rest of the dot segment. It cuts the segment before every \<open>[\<close> found
  at index 1 or later.
\<close>

function explode_loop :: "string list \<Rightarrow> string \<Rightarrow> string list \<times> string" where
  "explode_loop result partial =
     (let fragmentPartial = indexOf partial ''['' 1 in
      if fragmentPartial \<noteq> - 1 then
        (let newFragment = slice partial 0 fragmentPartial in
         explode_loop (result @ [newFragment])
           (getRemainingString partial
              \<lparr>discardedStrings = [newFragment], global = False\<rparr>))
      else (result, partial))"
  by pat_completeness auto
termination
  by (relation "measure (\<lambda>(result, partial). length partial)")
    (auto simp del: One_nat_def intro: loop_decreases)

declare explode_loop.simps [simp del]

text \<open>The first callback: run the loop, then push what is left of the segment.\<close>

definition explode_partial :: "string list \<Rightarrow> string \<Rightarrow> string list" where
  "explode_partial result partial =
     (case explode_loop result partial of (result', partial') \<Rightarrow> result' @ [partial'])"

text \<open>The second callback keeps a fragment only when \<open>q.slice(1)\<close> is a non-empty
  string.\<close>

definition explodePath :: "string \<Rightarrow> string list" where
  "explodePath path =
     foldl (\<lambda>result q. if slice_from q 1 \<noteq> [] then result @ [q] else result) []
       (foldl explode_partial [] (js_split path CHR ''.''))"

section \<open>implodePath\<close>

text \<open>The template literal \<open>`${fragment}`\<close>. \<open>implodePath\<close> interpolates a fragment
  only after \<open>getStartType\<close> has answered \<open>object\<close> or \<open>array\<close>, which it does for
  strings only, so the text of the other values is never asked for.\<close>

fun interpolate :: "jsval \<Rightarrow> string" where
  "interpolate (JStr s) = s"
| "interpolate _ = []"

lemma getStartType_known_is_string:
  "getStartType v \<noteq> ''unknown'' \<Longrightarrow> \<exists>s. v = JStr s"
  by (cases v) (simp_all add: getStartType_def)

text \<open>The callback of the \<open>reduce\<close>: the \<open>switch\<close> has no default case, so any other
  start type leaves the path as it is.\<close>

definition implode_step :: "string \<Rightarrow> jsval \<Rightarrow> string" where
  "implode_step path fragment =
     (let startType = getStartType fragment in
      if startType = ''object'' then
        (if path = [] then path @ interpolate fragment
         else path @ ''.'' @ interpolate fragment)
      else if startType = ''array'' then path @ interpolate fragment
      else path)"

definition implodePath :: "jsval list \<Rightarrow> string" where
  "implodePath pathFragments = foldl implode_step [] pathFragments"

section \<open>removePathLevels\<close>

text \<open>The options after the merge with the defaults \<open>{count: 1, termination: 'end'}\<close>;
  a caller's object overrides the fields it names.\<close>

record rpl_options =
  rpl_count :: int
  rpl_termination :: string

definition rpl_defaults :: rpl_options where
  "rpl_defaults = \<lparr>rpl_count = 1, rpl_termination = ''end''\<rparr>"

definition removePathLevels :: "string \<Rightarrow> rpl_options \<Rightarrow> string" where
  "removePathLevels path options =
     (let pathFragments = explodePath path;
          spliced =
            (if rpl_termination options = ''end'' then
               splice pathFragments (int (length pathFragments) - rpl_count options)
                 (rpl_count options)
             else if rpl_termination options = ''start'' then
               splice pathFragments 0 (rpl_count options)
             else pathFragments)
      in implodePath (map JStr spliced))"

section \<open>get and set\<close>

text \<open>The guard both operations share:
  a non-empty string or a non-empty array.\<close>

definition usable_path :: "jsval \<Rightarrow> bool" where
  "usable_path path =
     (case path of
        JStr s \<Rightarrow> length s > 0
      | JArr xs \<Rightarrow> length xs > 0
      | _ \<Rightarrow> False)"

text \<open>\<open>if (string && path.startsWith('.')) path = path.replace('.', '')\<close>\<close>

definition strip_leading_dot :: "jsval \<Rightarrow> jsval" where
  "strip_leading_dot path =
     (case path of
        JStr s \<Rightarrow> (if prefix ''.'' s then JStr (replace s ''.'' []) else path)
      | _ \<Rightarrow> path)"

text \<open>
  \<open>lodash/get\<close> and \<open>lodash/set\<close> are libraries outside the repository; both
  operations take them as parameters. \<open>get\<close> passes the string \<open>'undefined'\<close> to
  \<open>lodash/get\<close> as the default and compares the answer with it. When the first lookup
  answers that string, the path is exploded: for an array path
  \<open>path.split\<close> is not a function, and the call raises.
\<close>

definition get ::
  "(jsval \<Rightarrow> jsval \<Rightarrow> jsval \<Rightarrow> jsval) \<Rightarrow> jsval \<Rightarrow> jsval \<Rightarrow> jsval \<Rightarrow> error + jsval" where
  "get lodashGet collection path def =
     (if \<not> usable_path path then Inr collection
      else
        (let path1 = strip_leading_dot path;
             result = lodashGet collection path1 (JStr ''undefined'')
         in if result = JStr ''undefined'' then
              (case path1 of
                 JStr s \<Rightarrow>
                   Inr (lodashGet collection (JArr (map JStr (explodePath s)))
                          (JStr ''undefined''))
               | _ \<Rightarrow> Inl TypeError)
            else Inr result))"

text \<open>\<open>path.length === 0\<close>: reading a property of \<open>undefined\<close> or \<open>null\<close> raises; a
  boolean or a number has no \<open>length\<close>; an object has the one it was given.\<close>

definition length_is_zero :: "jsval \<Rightarrow> error + bool" where
  "length_is_zero path =
     (case path of
        JUndefined \<Rightarrow> Inl TypeError
      | JNull \<Rightarrow> Inl TypeError
      | JStr s \<Rightarrow> Inr (length s = 0)
      | JArr xs \<Rightarrow> Inr (length xs = 0)
      | JObj kvs \<Rightarrow> Inr (map_of kvs ''length'' = Some (JNum 0))
      | _ \<Rightarrow> Inr False)"

definition set_path ::
  "(jsval \<Rightarrow> jsval \<Rightarrow> jsval \<Rightarrow> jsval) \<Rightarrow> jsval \<Rightarrow> jsval \<Rightarrow> jsval \<Rightarrow> error + jsval" where
  "set_path lodashSet collection path val =
     (case length_is_zero path of
        Inl e \<Rightarrow> Inl e
      | Inr True \<Rightarrow> Inr val
      | Inr False \<Rightarrow>
          (if \<not> usable_path path then Inr collection
           else Inr (lodashSet collection (strip_leading_dot path) val)))"

section \<open>getSubPaths\<close>

text \<open>The options after the merge with the defaults
  \<open>{ignoreRoot: false, ignoreFull: false}\<close>.\<close>

record gsp_options =
  ignoreRoot :: bool
  ignoreFull :: bool

text \<open>The callback of the \<open>reduce\<close> over the fragments, on the accumulated path and
  on the result array it pushes to.\<close>

definition subpath_step :: "string list \<times> string list \<Rightarrow> string \<Rightarrow> string list \<times> string list" where
  "subpath_step state path =
     (case state of (accumulatedPath, result) \<Rightarrow>
        (accumulatedPath @ [path],
         result @ [implodePath (map JStr (accumulatedPath @ [path]))]))"

definition getSubPaths :: "jsval \<Rightarrow> gsp_options \<Rightarrow> string list" where
  "getSubPaths property options =
     (case property of
        JStr s \<Rightarrow>
          (let result0 = (if \<not> ignoreRoot options then [[]] else []);
               result = snd (foldl subpath_step ([], result0) (explodePath s))
           in if length result > 0 \<and> ignoreFull options then butlast result else result)
      | _ \<Rightarrow> [])"

section \<open>replacePathArraysWithString\<close>

text \<open>The options after the merge with the default \<open>{string: ''}\<close>.\<close>

record rpa_options =
  rpa_string :: string

definition replacePathArraysWithString :: "string \<Rightarrow> rpa_options \<Rightarrow> string" where
  "replacePathArraysWithString property options =
     implodePath
       (map (\<lambda>ep. if getStartType (JStr ep) = ''array'' then JStr (rpa_string options)
                   else JStr ep)
          (explodePath property))"

section \<open>The fragment classifier\<close>

text \<open>Searching for a single code unit.\<close>

lemma index_of_char:
  "index_of [c] s = (if c \<in> set s then Some (length (takeWhile (\<lambda>x. x \<noteq> c) s)) else None)"
  by (induction s) auto

lemma drop_min_length: "drop (min n (length s)) s = drop n s"
  by (simp add: min_def)

lemma indexOf_char_none: "indexOf s [c] pos = - 1 \<longleftrightarrow> c \<notin> set (drop pos s)"
  by (simp add: indexOf_def Let_def index_of_char drop_min_length)

lemma indexOf_char_some:
  assumes "c \<in> set (drop pos s)"
  shows "indexOf s [c] pos = int (pos + length (takeWhile (\<lambda>x. x \<noteq> c) (drop pos s)))"
proof -
  from assms have "pos \<le> length s" by (cases "pos \<le> length s") auto
  with assms show ?thesis
    by (simp add: indexOf_def Let_def index_of_char drop_min_length min_def)
qed

lemma substring_to: "0 \<le> k \<Longrightarrow> substring s 0 k = take (nat k) s"
  by (simp add: substring_def Let_def min_def max_def)

text \<open>Where \<open>path.indexOf("]", 1)\<close> finds the closing bracket, when there is one.\<close>

definition end_bracket :: "string \<Rightarrow> nat" where
  "end_bracket s = Suc (length (takeWhile (\<lambda>x. x \<noteq> CHR '']'') (tl s)))"

lemma getStartType_string:
  "getStartType (JStr s) =
     (if s = [] then ''unknown''
      else if hd s = CHR ''['' \<and> CHR '']'' \<in> set (tl s) \<and>
              CHR '','' \<notin> set (drop 2 (take (end_bracket s) s))
           then ''array'' else ''object'')"
proof (cases s)
  case Nil
  then show ?thesis by (simp add: getStartType_def)
next
  case (Cons x xs)
  show ?thesis
  proof (cases "CHR '']'' \<in> set xs")
    case True
    then have e: "indexOf s '']'' 1 = int (end_bracket s)"
      using indexOf_char_some [of "CHR '']''" 1 s] Cons by (simp add: end_bracket_def)
    have "getStartType (JStr s) =
        (if x = CHR ''['' \<and> indexOf (take (end_bracket s) s) '','' 2 = - 1 then ''array''
         else ''object'')"
    proof -
      from Cons have "0 < length s" "s ! 0 = x" by simp_all
      then show ?thesis
        by (simp add: getStartType_def Let_def e substring_to del: One_nat_def)
    qed
    then show ?thesis using Cons True by (simp add: indexOf_char_none)
  next
    case False
    then have "indexOf s '']'' 1 = - 1"
      using Cons by (simp add: indexOf_char_none)
    then show ?thesis using Cons False by (simp add: getStartType_def)
  qed
qed

lemma takeWhile_shorter: "x \<in> set xs \<Longrightarrow> \<not> P x \<Longrightarrow> length (takeWhile P xs) < length xs"
  by (induction xs) auto

lemma takeWhile_holds: "j < length (takeWhile P xs) \<Longrightarrow> P (xs ! j)"
proof -
  assume j: "j < length (takeWhile P xs)"
  then have "takeWhile P xs ! j \<in> set (takeWhile P xs)" by (rule nth_mem)
  then have "P (takeWhile P xs ! j)" by (rule set_takeWhileD [THEN conjunct2])
  with j show ?thesis by (simp add: takeWhile_nth)
qed

lemma first_bracket_index:
  "(CHR '']'' \<in> set (tl s) \<and> c \<notin> set (drop 2 (take (end_bracket s) s)))
   \<longleftrightarrow> (\<exists>i. 0 < i \<and> i < length s \<and> s ! i = CHR '']'' \<and> (\<forall>j. 2 \<le> j \<and> j < i \<longrightarrow> s ! j \<noteq> c))"
  (is "?L \<longleftrightarrow> ?R")
proof
  let ?P = "\<lambda>x. x \<noteq> CHR '']''"
  let ?n = "length (takeWhile ?P (tl s))"
  assume l: ?L
  then have ne: "s \<noteq> []" by auto
  from l have "CHR '']'' \<in> set (tl s)" by simp
  then have "?n < length (tl s)" by (rule takeWhile_shorter) simp
  then have n: "end_bracket s < length s" and "\<not> ?P (tl s ! ?n)"
    using nth_length_takeWhile [of ?P "tl s"] by (auto simp: end_bracket_def)
  then have b: "s ! end_bracket s = CHR '']''"
    using ne by (cases s) (auto simp: end_bracket_def)
  have "s ! j \<noteq> c" if "2 \<le> j" "j < end_bracket s" for j
  proof -
    from that n have "j - 2 < length (drop 2 (take (end_bracket s) s))" by simp
    then have "drop 2 (take (end_bracket s) s) ! (j - 2) \<in> set (drop 2 (take (end_bracket s) s))"
      by (rule nth_mem)
    moreover have "drop 2 (take (end_bracket s) s) ! (j - 2) = s ! j"
    proof -
      from that obtain m where "j = m + 2" using le_Suc_ex [of 2 j] by (auto simp: add.commute)
      with that n show ?thesis by simp
    qed
    ultimately show ?thesis using l by metis
  qed
  with n b show ?R by (intro exI [of _ "end_bracket s"]) (simp add: end_bracket_def)
next
  let ?P = "\<lambda>x. x \<noteq> CHR '']''"
  let ?n = "length (takeWhile ?P (tl s))"
  assume ?R
  then obtain i where i: "0 < i" "i < length s" "s ! i = CHR '']''"
    and free: "\<forall>j. 2 \<le> j \<and> j < i \<longrightarrow> s ! j \<noteq> c" by blast
  from i have t: "i - 1 < length (tl s)" "tl s ! (i - 1) = CHR '']''"
    by (cases s; cases i; simp)+
  then have mem: "CHR '']'' \<in> set (tl s)" by (metis nth_mem)
  have "?n \<le> i - 1"
  proof (rule ccontr)
    assume "\<not> ?n \<le> i - 1"
    then have "i - 1 < ?n" by simp
    then have "?P (tl s ! (i - 1))"
      by (rule takeWhile_holds)
    with t show False by simp
  qed
  with i have le: "end_bracket s \<le> i" by (simp add: end_bracket_def)
  have "c \<notin> set (drop 2 (take (end_bracket s) s))"
  proof
    assume "c \<in> set (drop 2 (take (end_bracket s) s))"
    then obtain k where k: "k < length (drop 2 (take (end_bracket s) s))"
      "drop 2 (take (end_bracket s) s) ! k = c" by (auto simp: in_set_conv_nth)
    then have "k + 2 < end_bracket s" by simp
    moreover from this k have "s ! (k + 2) = c" by (simp add: add.commute)
    ultimately show False using free le by auto
  qed
  with mem show ?L by simp
qed

text \<open>
  C3: \<open>getStartType\<close> answers \<open>array\<close> if and only if the first character of the
  input is \<open>[\<close>, a closing \<open>]\<close> exists at some index greater than 0, and the text
  before that closing bracket has no \<open>,\<close> at index 2 or later; it answers \<open>object\<close>
  for every other non-empty string, and \<open>unknown\<close> for the empty string and for every
  value that is not a string. In particular it answers \<open>object\<close> for \<open>[1,2]\<close>.
\<close>

theorem getStartType_rule:
  "(getStartType (JStr s) = ''array'' \<longleftrightarrow>
      s \<noteq> [] \<and> s ! 0 = CHR ''['' \<and>
      (\<exists>i. 0 < i \<and> i < length s \<and> s ! i = CHR '']'' \<and>
           (\<forall>j. 2 \<le> j \<and> j < i \<longrightarrow> s ! j \<noteq> CHR '','')))
   \<and> (s \<noteq> [] \<and> getStartType (JStr s) \<noteq> ''array'' \<longrightarrow> getStartType (JStr s) = ''object'')
   \<and> getStartType (JStr []) = ''unknown''
   \<and> ((\<forall>t. v \<noteq> JStr t) \<longrightarrow> getStartType v = ''unknown'')
   \<and> getStartType (JStr ''[1,2]'') = ''object''"
proof -
  have a: "getStartType (JStr s) = ''array'' \<longleftrightarrow>
      s \<noteq> [] \<and> s ! 0 = CHR ''['' \<and>
      (\<exists>i. 0 < i \<and> i < length s \<and> s ! i = CHR '']'' \<and>
           (\<forall>j. 2 \<le> j \<and> j < i \<longrightarrow> s ! j \<noteq> CHR '',''))"
    unfolding first_bracket_index [symmetric]
    by (cases s) (auto simp: getStartType_string)
  have b: "s \<noteq> [] \<and> getStartType (JStr s) \<noteq> ''array'' \<longrightarrow> getStartType (JStr s) = ''object''"
    by (simp add: getStartType_string)
  have c: "getStartType (JStr []) = ''unknown''"
    by (simp add: getStartType_def)
  have d: "(\<forall>t. v \<noteq> JStr t) \<longrightarrow> getStartType v = ''unknown''"
    by (cases v) (simp_all add: getStartType_def)
  have e: "getStartType (JStr ''[1,2]'') = ''object''"
    by code_simp
  from a b c d e show ?thesis by blast
qed

theorem getStartType_rule_witness:
  "getStartType (JStr ''[12]'') = ''array'' \<and> getStartType (JStr ''ab'') = ''object''
   \<and> getStartType (JNum 3) = ''unknown''"
proof -
  have free: "\<forall>j. 2 \<le> j \<and> j < 3 \<longrightarrow> ''[12]'' ! j \<noteq> CHR '',''"
  proof (intro allI impI)
    fix j :: nat
    assume "2 \<le> j \<and> j < 3"
    then have "j = 2" by simp
    then show "''[12]'' ! j \<noteq> CHR '',''" by simp
  qed
  have ex: "\<exists>i. 0 < i \<and> i < length ''[12]'' \<and> ''[12]'' ! i = CHR '']'' \<and>
      (\<forall>j. 2 \<le> j \<and> j < i \<longrightarrow> ''[12]'' ! j \<noteq> CHR '','')"
  proof (rule exI [of _ 3])
    show "0 < (3::nat) \<and> 3 < length ''[12]'' \<and> ''[12]'' ! 3 = CHR '']'' \<and>
      (\<forall>j. 2 \<le> j \<and> j < 3 \<longrightarrow> ''[12]'' ! j \<noteq> CHR '','')"
      by (intro conjI free) simp_all
  qed
  have rhs: "''[12]'' \<noteq> [] \<and> ''[12]'' ! 0 = CHR ''['' \<and>
      (\<exists>i. 0 < i \<and> i < length ''[12]'' \<and> ''[12]'' ! i = CHR '']'' \<and>
      (\<forall>j. 2 \<le> j \<and> j < i \<longrightarrow> ''[12]'' ! j \<noteq> CHR '',''))"
    by (intro conjI ex) simp_all
  note r = getStartType_rule [of "''[12]''" "JNum 3"]
  from r have "getStartType (JStr ''[12]'') = ''array'' \<longleftrightarrow>
      ''[12]'' \<noteq> [] \<and> ''[12]'' ! 0 = CHR ''['' \<and>
      (\<exists>i. 0 < i \<and> i < length ''[12]'' \<and> ''[12]'' ! i = CHR '']'' \<and>
      (\<forall>j. 2 \<le> j \<and> j < i \<longrightarrow> ''[12]'' ! j \<noteq> CHR '',''))"
    by (rule conjunct1)
  with rhs have a: "getStartType (JStr ''[12]'') = ''array''" by (rule iffD2 [rotated])
  from r have "(\<forall>t. JNum 3 \<noteq> JStr t) \<longrightarrow> getStartType (JNum 3) = ''unknown''"
    by (elim conjE)
  moreover have "\<forall>t. JNum 3 \<noteq> JStr t" by simp
  ultimately have u: "getStartType (JNum 3) = ''unknown''" by (rule mp)
  note q = getStartType_rule [of "''ab''" "JNum 3"]
  from q have iff: "getStartType (JStr ''ab'') = ''array'' \<longleftrightarrow>
      ''ab'' \<noteq> [] \<and> ''ab'' ! 0 = CHR ''['' \<and>
      (\<exists>i. 0 < i \<and> i < length ''ab'' \<and> ''ab'' ! i = CHR '']'' \<and>
      (\<forall>j. 2 \<le> j \<and> j < i \<longrightarrow> ''ab'' ! j \<noteq> CHR '',''))"
    by (rule conjunct1)
  have "''ab'' ! 0 \<noteq> CHR ''[''" by simp
  with iff have "getStartType (JStr ''ab'') \<noteq> ''array''" by blast
  moreover from q have "''ab'' \<noteq> [] \<and> getStartType (JStr ''ab'') \<noteq> ''array'' \<longrightarrow>
      getStartType (JStr ''ab'') = ''object''"
    by (elim conjE)
  ultimately have o: "getStartType (JStr ''ab'') = ''object''" by simp
  from a o u show ?thesis by (intro conjI)
qed

section \<open>The tokenizer on literal paths\<close>

text \<open>
  C1: \<open>explodePath\<close> applied to the path \<open>lorem.ipsum[2][1].foo\<close> returns exactly the
  fragments \<open>lorem\<close>, \<open>ipsum\<close>, \<open>[2]\<close>, \<open>[1]\<close>, \<open>foo\<close>, in that order.
\<close>

theorem explodePath_lorem:
  "explodePath ''lorem.ipsum[2][1].foo'' = [''lorem'', ''ipsum'', ''[2]'', ''[1]'', ''foo'']"
  by code_simp

section \<open>The round trip through implodePath\<close>

text \<open>
  Where the loop cuts a segment that has a \<open>[\<close> at index 1 or later: before the first
  such bracket.
\<close>

definition cut_index :: "string \<Rightarrow> nat" where
  "cut_index partial = Suc (length (takeWhile (\<lambda>x. x \<noteq> CHR ''['') (tl partial)))"

lemma explode_loop_done:
  assumes "CHR ''['' \<notin> set (tl partial)"
  shows "explode_loop result partial = (result, partial)"
proof -
  from assms have "indexOf partial ''['' 1 = - 1"
    by (simp add: indexOf_char_none drop_Suc)
  then show ?thesis by (subst explode_loop.simps) (simp del: One_nat_def)
qed

lemma cut_index_le: "CHR ''['' \<in> set (tl partial) \<Longrightarrow> cut_index partial < length partial"
proof -
  assume a: "CHR ''['' \<in> set (tl partial)"
  then have "length (takeWhile (\<lambda>x. x \<noteq> CHR ''['') (tl partial)) < length (tl partial)"
    by (rule takeWhile_shorter) simp
  then show ?thesis by (simp add: cut_index_def)
qed

lemma explode_loop_cut:
  assumes "CHR ''['' \<in> set (tl partial)"
  shows "explode_loop result partial =
         explode_loop (result @ [take (cut_index partial) partial])
           (drop (cut_index partial) partial)"
proof -
  from assms have k: "indexOf partial ''['' 1 = int (cut_index partial)"
    using indexOf_char_some [of "CHR ''[''" 1 partial] by (simp add: cut_index_def drop_Suc)
  from cut_index_le [OF assms] have le: "cut_index partial \<le> length partial" by simp
  have s: "slice partial 0 (int (cut_index partial)) = take (cut_index partial) partial"
    by (simp add: slice_to)
  show ?thesis
    by (subst explode_loop.simps) (simp add: k s remaining_after_prefix [OF le] del: One_nat_def)
qed


text \<open>
  The loop only ever appends to the result array, so its effect is the list of pieces
  it cuts off a segment, followed by the rest it leaves.
\<close>

lemma explode_loop_result:
  "explode_loop result partial =
     (result @ fst (explode_loop [] partial), snd (explode_loop [] partial))"
proof (induction "length partial" arbitrary: result partial rule: less_induct)
  case less
  show ?case
  proof (cases "CHR ''['' \<in> set (tl partial)")
    case False
    then show ?thesis by (simp add: explode_loop_done)
  next
    case True
    let ?k = "cut_index partial"
    from True have "partial \<noteq> []" by auto
    then have shorter: "length (drop ?k partial) < length partial"
      by (simp add: cut_index_def)
    have r: "explode_loop res (drop ?k partial) =
        (res @ fst (explode_loop [] (drop ?k partial)), snd (explode_loop [] (drop ?k partial)))"
      for res by (rule less [OF shorter])
    have "explode_loop result partial =
        ((result @ [take ?k partial]) @ fst (explode_loop [] (drop ?k partial)),
         snd (explode_loop [] (drop ?k partial)))"
      using explode_loop_cut [OF True, of result] r [of "result @ [take ?k partial]"] by simp
    moreover have "explode_loop [] partial =
        ([take ?k partial] @ fst (explode_loop [] (drop ?k partial)),
         snd (explode_loop [] (drop ?k partial)))"
      using explode_loop_cut [OF True, of "[]"] r [of "[take ?k partial]"] by simp
    ultimately show ?thesis by simp
  qed
qed

text \<open>
  The fragments one dot segment contributes.
\<close>

definition pieces :: "string \<Rightarrow> string list" where
  "pieces partial = explode_partial [] partial"

lemma explode_partial_pieces: "explode_partial result partial = result @ pieces partial"
  by (simp add: pieces_def explode_partial_def explode_loop_result [of result] split: prod.splits)

lemma pieces_done: "CHR ''['' \<notin> set (tl partial) \<Longrightarrow> pieces partial = [partial]"
  by (simp add: pieces_def explode_partial_def explode_loop_done)

lemma pieces_cut:
  "CHR ''['' \<in> set (tl partial) \<Longrightarrow>
   pieces partial = take (cut_index partial) partial # pieces (drop (cut_index partial) partial)"
proof -
  assume a: "CHR ''['' \<in> set (tl partial)"
  have "pieces partial = explode_partial [take (cut_index partial) partial] (drop (cut_index partial) partial)"
    by (simp add: pieces_def explode_partial_def explode_loop_cut [OF a])
  then show ?thesis by (simp add: explode_partial_pieces)
qed

text \<open>
  Both \<open>reduce\<close> calls of \<open>explodePath\<close> in closed form: the pieces of the dot
  segments, without those of fewer than two characters.
\<close>

lemma foldl_explode_partial:
  "foldl explode_partial acc segs = acc @ concat (map pieces segs)"
  by (induction segs arbitrary: acc) (simp_all add: explode_partial_pieces)

lemma slice_from_1: "slice_from q 1 \<noteq> [] \<longleftrightarrow> 2 \<le> length q"
  by (auto simp: slice_from_def relative_index_def)

lemma foldl_keep:
  "foldl (\<lambda>result q. if slice_from q 1 \<noteq> [] then result @ [q] else result) acc qs
   = acc @ filter (\<lambda>q. 2 \<le> length q) qs"
  by (induction qs arbitrary: acc) (simp_all add: slice_from_1)

lemma explodePath_pieces:
  "explodePath path =
   filter (\<lambda>q. 2 \<le> length q) (concat (map pieces (js_split path CHR ''.'')))"
  by (simp add: explodePath_def foldl_explode_partial foldl_keep)

text \<open>
  Appending a bracketed fragment to a non-empty segment adds exactly that fragment to
  its pieces.
\<close>

lemma cut_index_append:
  assumes "CHR ''['' \<in> set (tl g)"
  shows "cut_index (g @ f) = cut_index g"
proof -
  from assms have "g \<noteq> []" by auto
  then have "tl (g @ f) = tl g @ f" by simp
  moreover from assms have "\<exists>x\<in>set (tl g). \<not> x \<noteq> CHR ''[''" by auto
  ultimately show ?thesis by (simp add: cut_index_def takeWhile_append1)
qed

lemma takeWhile_stop: "a \<notin> set xs \<Longrightarrow> takeWhile (\<lambda>x. x \<noteq> a) (xs @ a # ys) = xs"
  by (induction xs) auto

lemma cut_index_whole:
  assumes "g \<noteq> []" "CHR ''['' \<notin> set (tl g)" "f \<noteq> []" "hd f = CHR ''[''"
  shows "cut_index (g @ f) = length g"
proof -
  from assms have "takeWhile (\<lambda>x. x \<noteq> CHR ''['') (tl g @ f) = tl g"
    by (cases f) (simp_all add: takeWhile_stop)
  with assms show ?thesis by (simp add: cut_index_def)
qed

lemma pieces_append:
  assumes "f \<noteq> []" "hd f = CHR ''[''" "CHR ''['' \<notin> set (tl f)"
  shows "g \<noteq> [] \<Longrightarrow> pieces (g @ f) = pieces g @ [f]"
proof (induction "length g" arbitrary: g rule: less_induct)
  case less
  from assms have open_f: "CHR ''['' \<in> set f" by (cases f) auto
  with less.prems have in_gf: "CHR ''['' \<in> set (tl (g @ f))" by (cases g) auto
  show ?case
  proof (cases "CHR ''['' \<in> set (tl g)")
    case True
    let ?k = "cut_index g"
    from cut_index_le [OF True] have k: "?k < length g" .
    then have rest: "drop ?k g \<noteq> []" "length (drop ?k g) < length g"
      by (simp_all add: cut_index_def)
    have "pieces (g @ f) = take ?k g # pieces (drop ?k g @ f)"
      using pieces_cut [OF in_gf] k by (simp add: cut_index_append [OF True])
    also have "pieces (drop ?k g @ f) = pieces (drop ?k g) @ [f]"
      using rest by (intro less.hyps)
    finally show ?thesis by (simp add: pieces_cut [OF True])
  next
    case False
    with less.prems assms have "cut_index (g @ f) = length g"
      by (intro cut_index_whole)
    with pieces_cut [OF in_gf] have "pieces (g @ f) = g # pieces f" by simp
    with False assms show ?thesis by (simp add: pieces_done)
  qed
qed

text \<open>
  A piece has no \<open>[\<close> after its first character, and consists of characters of its
  segment.
\<close>

lemma pieces_sound:
  "q \<in> set (pieces g) \<Longrightarrow> CHR ''['' \<notin> set (tl q) \<and> set q \<subseteq> set g"
proof (induction "length g" arbitrary: g rule: less_induct)
  case less
  show ?case
  proof (cases "CHR ''['' \<in> set (tl g)")
    case False
    with less.prems show ?thesis by (simp add: pieces_done)
  next
    case True
    let ?k = "cut_index g"
    from True obtain c cs where g: "g = c # cs" by (cases g) auto
    have hd_piece: "take ?k g = c # takeWhile (\<lambda>x. x \<noteq> CHR ''['') cs"
      by (simp add: g cut_index_def takeWhile_eq_take [symmetric])
    from less.prems pieces_cut [OF True]
    consider "q = take ?k g" | "q \<in> set (pieces (drop ?k g))" by auto
    then show ?thesis
    proof cases
      case 1
      have "CHR ''['' \<notin> set (takeWhile (\<lambda>x. x \<noteq> CHR ''['') cs)"
        using set_takeWhileD by fastforce
      moreover have "set (take ?k g) \<subseteq> set g" by (rule set_take_subset)
      ultimately show ?thesis using 1 hd_piece by simp
    next
      case 2
      have "length (drop ?k g) < length g" by (simp add: g cut_index_def)
      from less.hyps [OF this 2] set_drop_subset [of ?k g] show ?thesis by blast
    qed
  qed
qed

text \<open>
  Splitting at a separator.
\<close>

lemma js_split_nonempty: "js_split s c \<noteq> []"
  by (induction s) (auto split: list.splits)

lemma js_split_no_separator: "c \<notin> set t \<Longrightarrow> js_split t c = [t]"
  by (induction t) auto

lemma js_split_append_separator: "js_split (s @ c # t) c = js_split s c @ js_split t c"
  by (induction s) (auto split: list.splits simp: js_split_nonempty)

lemma js_split_append:
  "c \<notin> set t \<Longrightarrow> js_split (s @ t) c = butlast (js_split s c) @ [last (js_split s c) @ t]"
  by (induction s) (auto split: list.splits simp: js_split_nonempty js_split_no_separator)

lemma js_split_last: "s \<noteq> [] \<Longrightarrow> last s \<noteq> c \<Longrightarrow> last (js_split s c) \<noteq> []"
  by (induction s) (auto split: list.splits if_splits simp: js_split_nonempty)

lemma js_split_segments: "g \<in> set (js_split s c) \<Longrightarrow> c \<notin> set g"
  by (induction s arbitrary: g) (auto split: list.splits if_splits)

text \<open>
  What \<open>explodePath\<close> produces: strings of two characters or more, without a dot, and
  with no \<open>[\<close> after the first character.
\<close>

definition fragment :: "string \<Rightarrow> bool" where
  "fragment f \<longleftrightarrow> 2 \<le> length f \<and> CHR ''.'' \<notin> set f \<and> CHR ''['' \<notin> set (tl f)"

lemma explodePath_fragments:
  assumes "q \<in> set (explodePath path)"
  shows "fragment q"
proof -
  from assms have len: "2 \<le> length q"
    and "q \<in> set (concat (map pieces (js_split path CHR ''.'')))"
    by (simp_all add: explodePath_pieces)
  then obtain g where g: "g \<in> set (js_split path CHR ''.'')" and q: "q \<in> set (pieces g)"
    by auto
  from pieces_sound [OF q] js_split_segments [OF g] have "CHR ''['' \<notin> set (tl q)" "CHR ''.'' \<notin> set q"
    by auto
  with len show ?thesis by (simp add: fragment_def)
qed

lemma explodePath_Nil: "explodePath [] = []"
  by (simp add: explodePath_pieces pieces_done)

lemma explodePath_single: "fragment f \<Longrightarrow> explodePath f = [f]"
  by (simp add: fragment_def explodePath_pieces js_split_no_separator pieces_done)

lemma explodePath_append_object:
  assumes "fragment f"
  shows "explodePath (s @ ''.'' @ f) = explodePath s @ [f]"
proof -
  from assms have "js_split (s @ CHR ''.'' # f) CHR ''.'' = js_split s CHR ''.'' @ [f]"
    by (simp add: js_split_append_separator js_split_no_separator fragment_def)
  with assms show ?thesis
    by (simp add: explodePath_pieces pieces_done fragment_def)
qed

lemma explodePath_append_array:
  assumes "fragment f" "hd f = CHR ''[''" "s \<noteq> []" "last s \<noteq> CHR ''.''"
  shows "explodePath (s @ f) = explodePath s @ [f]"
proof -
  let ?segs = "js_split s CHR ''.''"
  from assms have f: "f \<noteq> []" "CHR ''.'' \<notin> set f" "CHR ''['' \<notin> set (tl f)" "2 \<le> length f"
    by (auto simp: fragment_def)
  from assms have g: "last ?segs \<noteq> []" by (intro js_split_last)
  have whole: "?segs = butlast ?segs @ [last ?segs]"
    by (simp add: js_split_nonempty)
  have "js_split (s @ f) CHR ''.'' = butlast ?segs @ [last ?segs @ f]"
    using f by (intro js_split_append)
  then have "concat (map pieces (js_split (s @ f) CHR ''.''))
      = concat (map pieces (butlast ?segs)) @ pieces (last ?segs) @ [f]"
    using pieces_append [OF f(1) assms(2) f(3) g] by simp
  also have "\<dots> = concat (map pieces (butlast ?segs @ [last ?segs])) @ [f]"
    by simp
  finally have "concat (map pieces (js_split (s @ f) CHR ''.''))
      = concat (map pieces ?segs) @ [f]"
    using whole by simp
  with f show ?thesis by (simp add: explodePath_pieces)
qed

text \<open>
  \<open>implodePath\<close> on such fragments: none is unknown, an array fragment starts with
  \<open>[\<close>, and the path built so far never ends in a dot.
\<close>

lemma array_starts_open: "getStartType (JStr f) = ''array'' \<Longrightarrow> hd f = CHR ''[''"
  by (simp add: getStartType_string split: if_splits)

lemma implode_step_string:
  "f \<noteq> [] \<Longrightarrow> implode_step s (JStr f) =
     (if getStartType (JStr f) = ''array'' then s @ f
      else if s = [] then f else s @ ''.'' @ f)"
  by (simp add: implode_step_def getStartType_string)

lemma implodePath_snoc: "implodePath (fs @ [f]) = implode_step (implodePath fs) f"
  by (simp add: implodePath_def)

lemma implodePath_end:
  assumes "fs \<noteq> []" "\<And>f. f \<in> set fs \<Longrightarrow> fragment f"
  shows "implodePath (map JStr fs) \<noteq> [] \<and> last (implodePath (map JStr fs)) \<noteq> CHR ''.''"
proof -
  from assms(1) obtain gs f where fs: "fs = gs @ [f]" by (cases fs rule: rev_cases) auto
  with assms(2) have "fragment f" by simp
  then have "f \<noteq> []" "CHR ''.'' \<notin> set f"
    by (auto simp: fragment_def)
  then have f: "f \<noteq> []" "last f \<noteq> CHR ''.''"
    by (metis last_in_set)+
  then show ?thesis
    by (simp add: fs implodePath_snoc implode_step_string)
qed

lemma explodePath_implodePath:
  "(\<And>f. f \<in> set fs \<Longrightarrow> fragment f) \<Longrightarrow> explodePath (implodePath (map JStr fs)) = fs"
proof (induction fs rule: rev_induct)
  case Nil
  show ?case by (simp add: implodePath_def explodePath_Nil)
next
  case (snoc f fs)
  let ?s = "implodePath (map JStr fs)"
  from snoc.prems have f: "fragment f" and fs: "\<And>g. g \<in> set fs \<Longrightarrow> fragment g" by simp_all
  from f have ne: "f \<noteq> []" by (auto simp: fragment_def)
  from snoc.IH fs have ih: "explodePath ?s = fs" by simp
  show ?case
  proof (cases "fs = []")
    case True
    then have "implodePath (map JStr (fs @ [f])) = implode_step [] (JStr f)"
      by (simp add: implodePath_def)
    with True f ne show ?thesis
      by (simp add: implode_step_string explodePath_single)
  next
    case False
    from implodePath_end [OF False fs] have s: "?s \<noteq> []" "last ?s \<noteq> CHR ''.''" by simp_all
    show ?thesis
    proof (cases "getStartType (JStr f) = ''array''")
      case True
      then have "hd f = CHR ''[''" by (rule array_starts_open)
      with f s have "explodePath (?s @ f) = explodePath ?s @ [f]"
        by (intro explodePath_append_array)
      with True ne ih show ?thesis by (simp add: implodePath_snoc implode_step_string)
    next
      case False
      with ne s ih explodePath_append_object [OF f, of ?s] show ?thesis
        by (simp add: implodePath_snoc implode_step_string)
    qed
  qed
qed

text \<open>
  C2: for every path \<open>p\<close>, and so for every path of canonical dot and bracket syntax
  with no leading dot, \<open>explodePath(implodePath(explodePath(p)))\<close> equals
  \<open>explodePath(p)\<close>: imploding a fragment sequence that \<open>explodePath\<close> produced and
  exploding the result again yields the same fragment sequence.
\<close>

theorem explodePath_roundtrip:
  "explodePath (implodePath (map JStr (explodePath p))) = explodePath p"
  by (rule explodePath_implodePath) (rule explodePath_fragments)

section \<open>Fragments of one character\<close>

text \<open>
  The second \<open>reduce\<close> of \<open>explodePath\<close> keeps a fragment only when \<open>q.slice(1)\<close>
  is non-empty, so it discards not only the empty fragments but every fragment of one
  character: a path of one-letter keys explodes to nothing, while the same path with
  longer keys explodes as the documentation of \<open>explodePath\<close> promises.
\<close>

lemma removePathLevels_longer_keys:
  "removePathLevels ''aa.bb.cc'' (rpl_defaults\<lparr>rpl_count := 1\<rparr>) = ''aa.bb''"
  "removePathLevels ''aa.bb.cc'' (rpl_defaults\<lparr>rpl_count := 1, rpl_termination := ''start''\<rparr>) = ''bb.cc''"
  by code_simp+

lemma replacePathArraysWithString_longer_keys:
  "replacePathArraysWithString ''aa[0].bb[1]'' \<lparr>rpa_string = []\<rparr> = ''aa.bb''"
  by code_simp

text \<open>
  C4: the specification expects \<open>removePathLevels('a.b.c', {count: 1})\<close> to be \<open>a.b\<close>
  and \<open>removePathLevels('a.b.c', {count: 1, termination: 'start'})\<close> to be \<open>b.c\<close>.
  The code explodes \<open>a.b.c\<close> to the empty array, and both calls return the empty
  string.
\<close>

theorem removePathLevels_single_character_keys:
  "explodePath ''a.b.c'' = []
   \<and> removePathLevels ''a.b.c'' (rpl_defaults\<lparr>rpl_count := 1\<rparr>) = []
   \<and> removePathLevels ''a.b.c'' (rpl_defaults\<lparr>rpl_count := 1, rpl_termination := ''start''\<rparr>) = []"
  by code_simp

text \<open>
  C5: the specification expects \<open>replacePathArraysWithString('a[0].b[1]', {string: ''})\<close>
  to be \<open>a.b\<close>. The code explodes \<open>a[0].b[1]\<close> to the two array fragments only, having
  discarded the keys \<open>a\<close> and \<open>b\<close>, and returns the empty string.
\<close>

theorem replacePathArraysWithString_single_character_keys:
  "explodePath ''a[0].b[1]'' = [''[0]'', ''[1]'']
   \<and> replacePathArraysWithString ''a[0].b[1]'' \<lparr>rpa_string = []\<rparr> = []"
  by code_simp

section \<open>Removing more levels than there are\<close>

text \<open>
  With the termination \<open>end\<close> the code calls
  \<open>splice(length - count, count)\<close>. When the count is the number of fragments, or
  at least twice that number, everything is removed; the termination \<open>start\<close> removes
  everything for every count from the number of fragments on.
\<close>

lemma implodePath_Nil: "implodePath [] = []"
  by (simp add: implodePath_def)

lemma removePathLevels_exact_count:
  "removePathLevels p (rpl_defaults\<lparr>rpl_count := int (length (explodePath p))\<rparr>) = []"
  by (simp add: removePathLevels_def rpl_defaults_def Let_def splice_def relative_index_def
      implodePath_Nil)

lemma removePathLevels_twice_the_length:
  "2 * int (length (explodePath p)) \<le> n \<Longrightarrow>
   removePathLevels p (rpl_defaults\<lparr>rpl_count := n\<rparr>) = []"
  by (simp add: removePathLevels_def rpl_defaults_def Let_def splice_def relative_index_def
      implodePath_Nil)

lemma removePathLevels_start_past_length:
  "int (length (explodePath p)) \<le> n \<Longrightarrow>
   removePathLevels p (rpl_defaults\<lparr>rpl_count := n, rpl_termination := ''start''\<rparr>) = []"
  by (simp add: removePathLevels_def rpl_defaults_def Let_def splice_def relative_index_def
      implodePath_Nil)

text \<open>
  C6: the specification expects \<open>removePathLevels(p, {count})\<close> with the termination
  \<open>end\<close> to be the empty string for every count greater than or equal to the number
  of fragments of \<open>p\<close>. For a count between the number of fragments and twice that
  number the start index \<open>length - count\<close> is negative and \<open>splice\<close> counts it from
  the end: of the three fragments of \<open>aa.bb.cc\<close> the count 4 removes only the last.
\<close>

theorem removePathLevels_count_past_length:
  "length (explodePath ''aa.bb.cc'') = 3
   \<and> removePathLevels ''aa.bb.cc'' (rpl_defaults\<lparr>rpl_count := 4\<rparr>) = ''aa.bb''"
  by code_simp

section \<open>Unknown fragments in implodePath\<close>

lemma implode_step_unknown: "getStartType f = ''unknown'' \<Longrightarrow> implode_step path f = path"
  by (simp add: implode_step_def)

lemma foldl_implode_filter:
  "foldl implode_step acc fs =
   foldl implode_step acc (filter (\<lambda>f. getStartType f \<noteq> ''unknown'') fs)"
  by (induction fs arbitrary: acc) (simp_all add: implode_step_unknown)

text \<open>
  C7: during \<open>implodePath\<close> a fragment classified \<open>unknown\<close> (an empty string or a
  value that is not a string) contributes nothing to the result, neither a separator nor
  content, and raises no error: imploding a sequence gives the same path as imploding
  the sequence without its unknown fragments.
\<close>

theorem implodePath_drops_unknown:
  "(\<forall>path f. getStartType f = ''unknown'' \<longrightarrow> implode_step path f = path)
   \<and> implodePath fs = implodePath (filter (\<lambda>f. getStartType f \<noteq> ''unknown'') fs)"
  by (simp add: implodePath_def implode_step_unknown foldl_implode_filter [symmetric])

theorem implodePath_drops_unknown_witness:
  "getStartType JNull = ''unknown'' \<and> implode_step ''aa'' JNull = ''aa''
   \<and> implodePath [JStr ''aa'', JStr [], JNull, JStr ''[0]'', JNum 3, JStr ''bb'']
      = implodePath [JStr ''aa'', JStr ''[0]'', JStr ''bb'']
   \<and> implodePath [JStr ''aa'', JStr ''[0]'', JStr ''bb''] = ''aa[0].bb''"
proof -
  note r = implodePath_drops_unknown
    [of "[JStr ''aa'', JStr [], JNull, JStr ''[0]'', JNum 3, JStr ''bb'']"]
  have u: "getStartType JNull = ''unknown''" by (simp add: getStartType_def)
  from r have "getStartType JNull = ''unknown'' \<longrightarrow> implode_step ''aa'' JNull = ''aa''"
    by blast
  with u have s: "implode_step ''aa'' JNull = ''aa''" by (rule rev_mp)
  have f: "filter (\<lambda>f. getStartType f \<noteq> ''unknown'')
      [JStr ''aa'', JStr [], JNull, JStr ''[0]'', JNum 3, JStr ''bb'']
      = [JStr ''aa'', JStr ''[0]'', JStr ''bb'']"
    by code_simp
  from r have e: "implodePath [JStr ''aa'', JStr [], JNull, JStr ''[0]'', JNum 3, JStr ''bb'']
      = implodePath [JStr ''aa'', JStr ''[0]'', JStr ''bb'']"
    unfolding f by (rule conjunct2)
  have v: "implodePath [JStr ''aa'', JStr ''[0]'', JStr ''bb''] = ''aa[0].bb''"
    by code_simp
  from u s e v show ?thesis by (intro conjI)
qed

section \<open>The number of subpaths\<close>

lemma subpath_fold_length:
  "length (snd (foldl subpath_step (acc, res) fs)) = length res + length fs"
  by (induction fs arbitrary: acc res) (simp_all add: subpath_step_def)

text \<open>
  C8, as amended: for every string path \<open>p\<close>, \<open>getSubPaths(p)\<close> with neither option
  set has \<open>explodePath(p).length + 1\<close> elements, and each enabled flag
  (\<open>ignoreRoot\<close>, \<open>ignoreFull\<close>) takes exactly one element away, except that with both
  flags set and no fragment at all the result is empty: the code pops the full path
  only from a non-empty result.
\<close>

theorem getSubPaths_length:
  "int (length (getSubPaths (JStr p) opts)) =
     (if ignoreRoot opts \<and> ignoreFull opts \<and> explodePath p = [] then 0
      else int (length (explodePath p)) + 1
           - (if ignoreRoot opts then 1 else 0) - (if ignoreFull opts then 1 else 0))"
proof -
  let ?n = "length (explodePath p)"
  let ?r0 = "(if \<not> ignoreRoot opts then [[]] else []) :: string list"
  let ?res = "snd (foldl subpath_step ([], ?r0) (explodePath p))"
  have len: "length ?res = length ?r0 + ?n"
    by (rule subpath_fold_length)
  have g: "length (getSubPaths (JStr p) opts) =
      (if 0 < length ?res \<and> ignoreFull opts then length ?res - 1 else length ?res)"
    by (simp add: getSubPaths_def Let_def del: length_greater_0_conv)
  show ?thesis
    unfolding g len
    by (cases "ignoreRoot opts"; cases "ignoreFull opts"; cases "explodePath p") simp_all
qed

theorem getSubPaths_length_counterexample:
  "int (length (getSubPaths (JStr []) \<lparr>ignoreRoot = True, ignoreFull = True\<rparr>))
     \<noteq> int (length (explodePath [])) + 1 - 1 - 1
   \<and> int (length (getSubPaths (JStr []) \<lparr>ignoreRoot = True, ignoreFull = True\<rparr>))
     \<noteq> int (length (getSubPaths (JStr []) \<lparr>ignoreRoot = True, ignoreFull = False\<rparr>)) - 1"
  by code_simp

theorem getSubPaths_length_witness:
  "length (explodePath ''lorem.ipsum[2][1].foo'') = 5
   \<and> length (getSubPaths (JStr ''lorem.ipsum[2][1].foo'') \<lparr>ignoreRoot = False, ignoreFull = False\<rparr>) = 6
   \<and> length (getSubPaths (JStr ''lorem.ipsum[2][1].foo'') \<lparr>ignoreRoot = True, ignoreFull = False\<rparr>) = 5
   \<and> length (getSubPaths (JStr ''lorem.ipsum[2][1].foo'') \<lparr>ignoreRoot = False, ignoreFull = True\<rparr>) = 5
   \<and> length (getSubPaths (JStr ''lorem.ipsum[2][1].foo'') \<lparr>ignoreRoot = True, ignoreFull = True\<rparr>) = 4
   \<and> length (getSubPaths (JStr []) \<lparr>ignoreRoot = True, ignoreFull = True\<rparr>) = 0"
proof -
  have n: "explodePath ''lorem.ipsum[2][1].foo'' = [''lorem'', ''ipsum'', ''[2]'', ''[1]'', ''foo'']"
    by code_simp
  have e: "explodePath [] = []" by code_simp
  show ?thesis
    using getSubPaths_length [of "''lorem.ipsum[2][1].foo''" "\<lparr>ignoreRoot = False, ignoreFull = False\<rparr>"]
      getSubPaths_length [of "''lorem.ipsum[2][1].foo''" "\<lparr>ignoreRoot = True, ignoreFull = False\<rparr>"]
      getSubPaths_length [of "''lorem.ipsum[2][1].foo''" "\<lparr>ignoreRoot = False, ignoreFull = True\<rparr>"]
      getSubPaths_length [of "''lorem.ipsum[2][1].foo''" "\<lparr>ignoreRoot = True, ignoreFull = True\<rparr>"]
      getSubPaths_length [of "[]" "\<lparr>ignoreRoot = True, ignoreFull = True\<rparr>"]
    unfolding n e by simp
qed

section \<open>Malformed paths in get and set\<close>

text \<open>
  \<open>get\<close> answers the collection itself for every path that is neither a string nor
  an array, and so does \<open>set\<close> for a boolean or a number.
\<close>

lemma get_malformed_path:
  "(\<forall>s. path \<noteq> JStr s) \<Longrightarrow> (\<forall>xs. path \<noteq> JArr xs) \<Longrightarrow>
   get lodashGet collection path def = Inr collection"
  by (cases path) (simp_all add: get_def usable_path_def)

lemma set_path_boolean_or_number:
  "set_path lodashSet collection (JBool b) val = Inr collection"
  "set_path lodashSet collection (JNum n) val = Inr collection"
  by (simp_all add: set_path_def length_is_zero_def usable_path_def)

text \<open>
  C9: the specification expects \<open>get\<close> and \<open>set\<close> to return the original collection,
  and not to throw, for every path that is neither a string nor an array. \<open>set\<close>
  reads \<open>path.length\<close> before it looks at the type of the path: for \<open>undefined\<close> and
  \<open>null\<close> the read raises a \<open>TypeError\<close>, and for an object whose \<open>length\<close> is 0 the
  value is returned instead of the collection.
\<close>

theorem set_path_malformed_path:
  "set_path lodashSet collection JUndefined val = Inl TypeError
   \<and> set_path lodashSet collection JNull val = Inl TypeError
   \<and> set_path lodashSet collection (JObj [(''length'', JNum 0)]) val = Inr val"
  by (simp add: set_path_def length_is_zero_def)

section \<open>The default of get\<close>

text \<open>
  \<open>get\<close> never consults its third argument \<open>def\<close>: its result is the same for every
  \<open>def\<close>. For a string path, when both the direct lookup and the lookup with the
  exploded path find nothing (\<open>lodash/get\<close> answers the default it was given, the
  string \<open>'undefined'\<close>), \<open>get\<close> returns that string.
\<close>

lemma get_ignores_def:
  "get lodashGet collection path def = get lodashGet collection path def'"
  by (simp add: get_def Let_def)

lemma get_string_path_not_found:
  assumes "strip_leading_dot path = JStr s" and "usable_path path"
    and "lodashGet collection (JStr s) (JStr ''undefined'') = JStr ''undefined''"
    and "lodashGet collection (JArr (map JStr (explodePath s))) (JStr ''undefined'')
          = JStr ''undefined''"
  shows "get lodashGet collection path def = Inr (JStr ''undefined'')"
  using assms by (simp add: get_def Let_def)

text \<open>
  C10: for every collection, path and \<open>def\<close>, \<open>get\<close> is expected to
  return the string \<open>'undefined'\<close> rather than \<open>def\<close> when the direct lookup and the
  lookup with the exploded path both find nothing. The guard of \<open>get\<close> admits a
  non-empty array as a path, but when the direct lookup with such a path finds nothing
  the code calls \<open>explodePath\<close> on the array: \<open>path.split\<close> is not a function, and
  \<open>get\<close> raises a \<open>TypeError\<close> before any second lookup, where a string path returns
  \<open>'undefined'\<close>.
\<close>

theorem get_array_path_raises:
  "xs \<noteq> [] \<Longrightarrow>
   lodashGet collection (JArr xs) (JStr ''undefined'') = JStr ''undefined'' \<Longrightarrow>
   get lodashGet collection (JArr xs) def = Inl TypeError"
  by (simp add: get_def Let_def usable_path_def strip_leading_dot_def)

theorem get_array_path_raises_witness:
  "get (\<lambda>c p d. d) (JObj []) (JArr [JStr ''foo'']) (JNum 7) = Inl TypeError
   \<and> get (\<lambda>c p d. d) (JObj []) (JStr ''foo'') (JNum 7) = Inr (JStr ''undefined'')"
proof -
  let ?lg = "\<lambda>(c::jsval) (p::jsval) (d::jsval). d"
  have ne: "[JStr ''foo''] \<noteq> []" by simp
  have miss: "?lg (JObj []) (JArr [JStr ''foo'']) (JStr ''undefined'') = JStr ''undefined''"
    by simp
  have a: "get ?lg (JObj []) (JArr [JStr ''foo'']) (JNum 7) = Inl TypeError"
    by (rule get_array_path_raises [where lodashGet = ?lg, OF ne miss])
  have "strip_leading_dot (JStr ''foo'') = JStr ''foo''"
    by (simp add: strip_leading_dot_def)
  moreover have "usable_path (JStr ''foo'')"
    by (simp add: usable_path_def)
  ultimately have b: "get ?lg (JObj []) (JStr ''foo'') (JNum 7) = Inr (JStr ''undefined'')"
    by (rule get_string_path_not_found) simp_all
  from a b show ?thesis by (intro conjI)
qed

end
